theory Spec2Isabelle
  imports Main "HOL-Library.Word"
begin

section \<open>Eternity II solver (done.c): data model\<close>

text \<open>
  The C program solves an edge-matching puzzle by backtracking, one MPI process per
  corner tile.  The embedding keeps the program's names.  Unsigned ints are 32-bit words,
  the rotation (an unsigned char) is an 8-bit word.  The tile array \<open>game->tiles\<close> is a
  store from array index to tile, and a board cell holds \<open>None\<close> (NULL) or \<open>Some i\<close>,
  the pointer \<open>&game->tiles[i]\<close>: a neighbour's colours are read through the pointer, so
  they follow the current rotation of the tile in the array.
\<close>

type_synonym u32 = "32 word"
type_synonym u8 = "8 word"

record tile =
  colors :: "u32 list"
  rotation :: u8
  tid :: u32
  used :: bool

text \<open>
  \<open>X_COLOR(t, s)\<close> is \<open>t->colors[(s + 4 - t->rotation) % 4]\<close>, computed in int.  Every
  writer of \<open>rotation\<close> stores a value in 0..3, so the dividend is positive and C's
  remainder is the mathematical one.
\<close>

definition X_COLOR :: "tile \<Rightarrow> int \<Rightarrow> u32" where
  "X_COLOR t s = colors t ! nat ((s + 4 - uint (rotation t)) mod 4)"

definition N_COLOR :: "tile \<Rightarrow> u32" where "N_COLOR t = X_COLOR t 0"
definition E_COLOR :: "tile \<Rightarrow> u32" where "E_COLOR t = X_COLOR t 1"
definition S_COLOR :: "tile \<Rightarrow> u32" where "S_COLOR t = X_COLOR t 2"
definition W_COLOR :: "tile \<Rightarrow> u32" where "W_COLOR t = X_COLOR t 3"

type_synonym tiles_t = "nat \<Rightarrow> tile"
type_synonym board_t = "u32 \<Rightarrow> u32 \<Rightarrow> nat option"

subsection \<open>valid_move\<close>

text \<open>
  \<open>valid_move(game, x, y, tile)\<close>: the four border tests, then the four neighbour tests,
  in the order of the source.  \<open>sz\<close> is \<open>game->size\<close>, \<open>b\<close> is \<open>game->board\<close>, \<open>ts\<close> the
  tile array the board points into; \<open>sz - 1\<close> is unsigned subtraction.  The function has
  no assignment: it returns a truth value and nothing else.
\<close>

definition valid_move :: "u32 \<Rightarrow> tiles_t \<Rightarrow> board_t \<Rightarrow> u32 \<Rightarrow> u32 \<Rightarrow> tile \<Rightarrow> bool" where
  "valid_move sz ts b x y t =
    (if x = 0 \<and> W_COLOR t \<noteq> 0 then False
     else if y = 0 \<and> N_COLOR t \<noteq> 0 then False
     else if x = sz - 1 \<and> E_COLOR t \<noteq> 0 then False
     else if y = sz - 1 \<and> S_COLOR t \<noteq> 0 then False
     else if x > 0 \<and> b (x - 1) y \<noteq> None \<and>
             E_COLOR (ts (the (b (x - 1) y))) \<noteq> W_COLOR t then False
     else if x < sz - 1 \<and> b (x + 1) y \<noteq> None \<and>
             W_COLOR (ts (the (b (x + 1) y))) \<noteq> E_COLOR t then False
     else if y > 0 \<and> b x (y - 1) \<noteq> None \<and>
             S_COLOR (ts (the (b x (y - 1)))) \<noteq> N_COLOR t then False
     else if y < sz - 1 \<and> b x (y + 1) \<noteq> None \<and>
             N_COLOR (ts (the (b x (y + 1)))) \<noteq> S_COLOR t then False
     else True)"

subsection \<open>eh_peca_de_quina\<close>

text \<open>
  The classifier writes each rotation it tries into the tile and returns through two
  out-parameters; the model returns the tile as left by the call and the optional pair
  (rotacao_valida, tipo_canto).
\<close>

function eh_peca_loop :: "tile \<Rightarrow> nat \<Rightarrow> tile \<times> (u8 \<times> int) option" where
  "eh_peca_loop t rot =
    (if rot < 4 then
       (let t1 = t\<lparr>rotation := of_nat rot\<rparr> in
        if N_COLOR t1 = 0 \<and> W_COLOR t1 = 0 then (t1, Some (of_nat rot, 0))
        else if N_COLOR t1 = 0 \<and> E_COLOR t1 = 0 then (t1, Some (of_nat rot, 1))
        else if S_COLOR t1 = 0 \<and> W_COLOR t1 = 0 then (t1, Some (of_nat rot, 2))
        else if S_COLOR t1 = 0 \<and> E_COLOR t1 = 0 then (t1, Some (of_nat rot, 3))
        else eh_peca_loop t1 (rot + 1))
     else (t, None))"
  by pat_completeness auto
termination
  by (relation "measure (\<lambda>(t, rot). 4 - rot)") auto

declare eh_peca_loop.simps [simp del]

definition eh_peca_de_quina :: "tile \<Rightarrow> tile \<times> (u8 \<times> int) option" where
  "eh_peca_de_quina t = eh_peca_loop t 0"


section \<open>The backtracking search\<close>

subsection \<open>Constants of a run and the mutable memory of one process\<close>

text \<open>
  \<open>game->size\<close> and \<open>game->tile_count\<close> are written once by \<open>initialize\<close>; \<open>rank\<close> and
  \<open>size\<close> (here \<open>nprocs\<close>) once by \<open>MPI_Init\<close>.  \<open>mailbox c k\<close> is what the k-th
  \<open>MPI_Iprobe\<close> of this process finds on tag 999: \<open>None\<close> when \<open>flag\<close> is 0, \<open>Some v\<close>
  when a notification with payload \<open>v\<close> is pending and is then received.  It stands
  for the other processes and the network, and is arbitrary.
\<close>

record cfg =
  bsize :: u32
  tile_count :: u32
  rank :: nat
  nprocs :: nat
  mailbox :: "nat \<Rightarrow> int option"

text \<open>
  The memory a search mutates: the tile array, the board, the three global flags, the
  static \<open>check_counter\<close> of \<open>play\<close> (an int; its overflow after 2^31 calls is undefined
  in C and outside the model), the number of probes made so far, and the messages
  handed to \<open>MPI_Send\<close> as (destination, payload), oldest first.
\<close>

record state =
  tiles :: tiles_t
  board :: board_t
  global_stop :: bool
  global_solution_found :: bool
  solution_owner :: int
  check_counter :: int
  probes :: nat
  outbox :: "(nat \<times> int) list"

definition set_used :: "nat \<Rightarrow> bool \<Rightarrow> state \<Rightarrow> state" where
  "set_used i u st = st\<lparr>tiles := (tiles st)(i := (tiles st i)\<lparr>used := u\<rparr>)\<rparr>"

definition set_rotation :: "nat \<Rightarrow> u8 \<Rightarrow> state \<Rightarrow> state" where
  "set_rotation i r st = st\<lparr>tiles := (tiles st)(i := (tiles st i)\<lparr>rotation := r\<rparr>)\<rparr>"

definition set_cell :: "u32 \<Rightarrow> u32 \<Rightarrow> nat option \<Rightarrow> state \<Rightarrow> state" where
  "set_cell x y v st = st\<lparr>board := (board st)(x := (board st x)(y := v))\<rparr>"

text \<open>The periodic check at the head of \<open>play\<close>; the flag returned is \<open>flag\<close> of the probe.\<close>

definition poll :: "cfg \<Rightarrow> state \<Rightarrow> state \<times> bool" where
  "poll c st =
    (let st1 = st\<lparr>check_counter := check_counter st + 1\<rparr> in
     if check_counter st1 mod 1000 = 0 then
       (case mailbox c (probes st1) of
          None \<Rightarrow> (st1\<lparr>probes := probes st1 + 1\<rparr>, False)
        | Some stop_signal \<Rightarrow>
            (st1\<lparr>probes := probes st1 + 1, global_solution_found := True,
                 solution_owner := stop_signal\<rparr>, True))
     else (st1, False))"

text \<open>The next position to fill; \<open>(size, size)\<close> when the board is complete.\<close>

definition next_cell :: "u32 \<Rightarrow> u32 \<Rightarrow> u32 \<Rightarrow> u32 \<times> u32" where
  "next_cell sz x y =
    (if x < sz - 1 then (x + 1, y)
     else if y < sz - 1 then (0, y + 1)
     else (sz, sz))"

text \<open>\<open>global_stop = 1\<close> and the loop of sends to every \<open>p != rank\<close>.\<close>

definition notify_all :: "cfg \<Rightarrow> (nat \<times> int) list" where
  "notify_all c = map (\<lambda>p. (p, int (rank c))) (filter (\<lambda>p. p \<noteq> rank c) [0..<nprocs c])"

definition send_stop :: "cfg \<Rightarrow> state \<Rightarrow> state" where
  "send_stop c st = st\<lparr>global_stop := True, outbox := outbox st @ notify_all c\<rparr>"

subsection \<open>play\<close>

text \<open>
  \<open>play\<close> is the function of the source; \<open>play_tiles c st x y i\<close> is its outer loop from
  tile index \<open>i\<close> on, \<open>play_rots c st x y i rot\<close> the inner loop of tile \<open>i\<close> from rotation
  \<open>rot\<close> on.  Each returns the memory it leaves and the value returned (1 as \<open>True\<close>).
\<close>

lemma unat_succ_lt: "x < sz \<Longrightarrow> unat (x + 1) = Suc (unat (x::u32))"
  by (metis (no_types, lifting) add.commute add_left_cancel diff_add_cancel
    less_eq_dec_iff less_le_not_le unatSuc)

lemma next_x_decreases:
  "x < sz - 1 \<Longrightarrow> unat (sz - 1) - unat (x + 1) < unat (sz - 1) - unat (x::u32)"
  by (simp add: unat_succ_lt word_less_nat_alt)

function play :: "cfg \<Rightarrow> state \<Rightarrow> u32 \<Rightarrow> u32 \<Rightarrow> state \<times> bool"
  and play_tiles :: "cfg \<Rightarrow> state \<Rightarrow> u32 \<Rightarrow> u32 \<Rightarrow> nat \<Rightarrow> state \<times> bool"
  and play_rots :: "cfg \<Rightarrow> state \<Rightarrow> u32 \<Rightarrow> u32 \<Rightarrow> nat \<Rightarrow> nat \<Rightarrow> state \<times> bool"
where
  "play c st x y =
    (if global_stop st then (st, False)
     else if snd (poll c st) then (fst (poll c st), False)
     else if global_solution_found (fst (poll c st)) then (fst (poll c st), False)
     else play_tiles c (fst (poll c st)) x y 0)"
| "play_tiles c st x y i =
    (if i < unat (tile_count c) then
       (if used (tiles st i) then play_tiles c st x y (i + 1)
        else
          (case play_rots c (set_used i True st) x y i 0 of
             (st2, True) \<Rightarrow> (st2, True)
           | (st2, False) \<Rightarrow> play_tiles c (set_used i False st2) x y (i + 1)))
     else (st, False))"
| "play_rots c st x y i rot =
    (if rot < 4 then
       (let st1 = set_rotation i (of_nat rot) st in
        if valid_move (bsize c) (tiles st1) (board st1) x y (tiles st1 i) then
          (let st2 = set_cell x y (Some i) st1;
               n = next_cell (bsize c) x y
           in if snd n = bsize c then (send_stop c st2, True)
              else
                (case play c st2 (fst n) (snd n) of
                   (st3, True) \<Rightarrow> (send_stop c st3, True)
                 | (st3, False) \<Rightarrow> play_rots c (set_cell x y None st3) x y i (rot + 1)))
        else play_rots c st1 x y i (rot + 1))
     else (st, False))"
  by pat_completeness auto

termination
  apply (relation "measures [
     (\<lambda>a. case a of Inl (c, st, x, y) \<Rightarrow> unat (bsize c - 1) - unat y
                  | Inr (Inl (c, st, x, y, i)) \<Rightarrow> unat (bsize c - 1) - unat y
                  | Inr (Inr (c, st, x, y, i, rot)) \<Rightarrow> unat (bsize c - 1) - unat y),
     (\<lambda>a. case a of Inl (c, st, x, y) \<Rightarrow> unat (bsize c - 1) - unat x
                  | Inr (Inl (c, st, x, y, i)) \<Rightarrow> unat (bsize c - 1) - unat x
                  | Inr (Inr (c, st, x, y, i, rot)) \<Rightarrow> unat (bsize c - 1) - unat x),
     (\<lambda>a. case a of Inl (c, st, x, y) \<Rightarrow> unat (tile_count c) + 1
                  | Inr (Inl (c, st, x, y, i)) \<Rightarrow> unat (tile_count c) - i
                  | Inr (Inr (c, st, x, y, i, rot)) \<Rightarrow> unat (tile_count c) - i),
     (\<lambda>a. case a of Inl (c, st, x, y) \<Rightarrow> 0
                  | Inr (Inl (c, st, x, y, i)) \<Rightarrow> 5
                  | Inr (Inr (c, st, x, y, i, rot)) \<Rightarrow> 4 - rot)]")
   apply (auto simp: next_cell_def next_x_decreases split: if_splits)
  done

declare play.simps [simp del] play_tiles.simps [simp del] play_rots.simps [simp del]

section \<open>main: corners, seeding and the collective result\<close>

subsection \<open>initialize and separar_pecas_de_quina\<close>

text \<open>
  \<open>initialize\<close> reads the board size and the four colours of each tile.  The input is
  the size and the list of colour quadruples (the colour-count bound only feeds an
  assertion).  Array cells at and beyond \<open>tile_count\<close> do not exist in the program; the
  store gives them a tile without colours and no function reads them.
\<close>

definition initialize :: "u32 \<Rightarrow> u32 list list \<Rightarrow> tiles_t" where
  "initialize bs cols =
    (\<lambda>i. \<lparr>colors = (if i < length cols then cols ! i else []), rotation = 0,
           tid = of_nat i, used = False\<rparr>)"

record corner_info =
  tile_id :: int
  corner_rotation :: u8
  corner_type :: int

text \<open>
  The loop of \<open>separar_pecas_de_quina\<close> from tile \<open>i\<close> on: classify, record a match, put
  the tile's rotation back.  It returns the tile array and the corners in the order found.
\<close>

function separar_loop :: "u32 \<Rightarrow> tiles_t \<Rightarrow> nat \<Rightarrow> tiles_t \<times> corner_info list" where
  "separar_loop tc ts i =
    (if i < unat tc then
       (let rotacao_original = rotation (ts i);
            r = eh_peca_de_quina (ts i);
            ts1 = ts(i := (fst r)\<lparr>rotation := rotacao_original\<rparr>);
            rest = separar_loop tc ts1 (i + 1)
        in case snd r of
             None \<Rightarrow> rest
           | Some (rotacao_valida, tipo_canto) \<Rightarrow>
               (fst rest,
                \<lparr>tile_id = uint (tid (ts i)), corner_rotation = rotacao_valida,
                 corner_type = tipo_canto\<rparr> # snd rest))
     else (ts, []))"
  by pat_completeness auto
termination
  by (relation "measure (\<lambda>(tc, ts, i). unat tc - i)") auto

declare separar_loop.simps [simp del]

definition separar_pecas_de_quina :: "u32 \<Rightarrow> tiles_t \<Rightarrow> tiles_t \<times> corner_info list" where
  "separar_pecas_de_quina tc ts = separar_loop tc ts 0"

subsection \<open>The start of an active process\<close>

text \<open>The switch on \<open>corner_type\<close>; any other value leaves (0, 0).\<close>

definition corner_pos :: "u32 \<Rightarrow> int \<Rightarrow> u32 \<times> u32" where
  "corner_pos sz ty =
    (if ty = 0 then (0, 0)
     else if ty = 1 then (sz - 1, 0)
     else if ty = 2 then (0, sz - 1)
     else if ty = 3 then (sz - 1, sz - 1)
     else (0, 0))"

text \<open>
  Empty board, every tile unused, then the corner tile rotated, marked used and stored
  at its corner.  The globals have their initial values.
\<close>

definition seed :: "cfg \<Rightarrow> tiles_t \<Rightarrow> corner_info \<Rightarrow> state" where
  "seed c ts ci =
    (let ts1 = (\<lambda>i. if i < unat (tile_count c) then (ts i)\<lparr>used := False\<rparr> else ts i);
         k = nat (tile_id ci);
         ts2 = ts1(k := (ts1 k)\<lparr>rotation := corner_rotation ci, used := True\<rparr>);
         p = corner_pos (bsize c) (corner_type ci);
         b = (\<lambda>x y. None);
         b1 = b(fst p := (b (fst p))(snd p := Some k))
     in \<lparr>tiles = ts2, board = b1, global_stop = False, global_solution_found = False,
         solution_owner = - 1, check_counter = 0, probes = 0, outbox = []\<rparr>)"

text \<open>The scan for the first empty position: rows top to bottom, each left to right.\<close>

lemma unat_succ_lt_size: "x < sz \<Longrightarrow> unat sz - unat (x + 1) < unat sz - unat (x::u32)"
  by (simp add: unat_succ_lt [of x sz] word_less_nat_alt)

function find_x :: "u32 \<Rightarrow> board_t \<Rightarrow> u32 \<Rightarrow> u32 \<Rightarrow> u32 option" where
  "find_x sz b y x =
    (if x < sz then (if b x y = None then Some x else find_x sz b y (x + 1)) else None)"
  by pat_completeness auto
termination
  by (relation "measure (\<lambda>(sz, b, y, x). unat sz - unat x)") (auto simp: unat_succ_lt_size)

function find_start :: "u32 \<Rightarrow> board_t \<Rightarrow> u32 \<Rightarrow> u32 \<times> u32" where
  "find_start sz b y =
    (if y < sz then
       (case find_x sz b y 0 of Some x \<Rightarrow> (x, y) | None \<Rightarrow> find_start sz b (y + 1))
     else (sz, sz))"
  by pat_completeness auto
termination
  by (relation "measure (\<lambda>(sz, b, y). unat sz - unat y)") (auto simp: unat_succ_lt_size)

declare find_x.simps [simp del] find_start.simps [simp del]

text \<open>\<open>local_solution\<close> of an active process, with the memory its search leaves.\<close>

definition worker :: "cfg \<Rightarrow> tiles_t \<Rightarrow> corner_info list \<Rightarrow> state \<times> bool" where
  "worker c ts corners =
    (let st0 = seed c ts (corners ! rank c);
         s = find_start (bsize c) (board st0) 0
     in if snd s < bsize c then play c st0 (fst s) (snd s) else (st0, False))"


section \<open>The placement test against its specification\<close>

text \<open>
  Sides are numbered as in the macros: 0 North, 1 East, 2 South, 3 West.  The
  specification speaks of the board's geometry, stated here on the numbers the
  coordinates denote: a side is on the boundary when no cell lies beyond it, and
  otherwise it has a neighbour cell.  The side of a neighbour that touches side \<open>s\<close> is
  the opposite one.
\<close>

definition on_boundary :: "u32 \<Rightarrow> u32 \<Rightarrow> u32 \<Rightarrow> int \<Rightarrow> bool" where
  "on_boundary sz x y s =
    ((s = 3 \<and> unat x = 0) \<or> (s = 0 \<and> unat y = 0) \<or>
     (s = 1 \<and> unat x + 1 = unat sz) \<or> (s = 2 \<and> unat y + 1 = unat sz))"

definition neighbour_cell :: "u32 \<Rightarrow> u32 \<Rightarrow> u32 \<Rightarrow> int \<Rightarrow> (u32 \<times> u32) option" where
  "neighbour_cell sz x y s =
    (if s = 3 \<and> 0 < unat x then Some (x - 1, y)
     else if s = 1 \<and> unat x + 1 < unat sz then Some (x + 1, y)
     else if s = 0 \<and> 0 < unat y then Some (x, y - 1)
     else if s = 2 \<and> unat y + 1 < unat sz then Some (x, y + 1)
     else None)"

definition facing :: "int \<Rightarrow> int" where
  "facing s = (s + 2) mod 4"

text \<open>
  \<open>can_place\<close> in the words of the specification: (i) every boundary side shows the
  border colour 0, and (ii) every occupied orthogonal neighbour shows, on its facing
  side, the colour the tile shows towards it.
\<close>

definition can_place_spec :: "u32 \<Rightarrow> tiles_t \<Rightarrow> board_t \<Rightarrow> u32 \<Rightarrow> u32 \<Rightarrow> tile \<Rightarrow> bool" where
  "can_place_spec sz ts b x y t =
    ((\<forall>s\<in>{0, 1, 2, 3}. on_boundary sz x y s \<longrightarrow> X_COLOR t s = 0) \<and>
     (\<forall>s\<in>{0, 1, 2, 3}. \<forall>p j. neighbour_cell sz x y s = Some p \<longrightarrow>
         b (fst p) (snd p) = Some j \<longrightarrow> X_COLOR (ts j) (facing s) = X_COLOR t s))"

lemma unat_size_minus_1: "x < sz \<Longrightarrow> unat (sz - 1) = unat (sz::u32) - 1 \<and> 0 < unat sz"
proof -
  assume "x < sz"
  then have "sz \<noteq> 0" by (metis word_not_simps(1))
  then show ?thesis by (simp add: unat_minus_one unat_gt_0)
qed

lemma last_index: "x < sz \<Longrightarrow> (x = sz - 1) = (unat x + 1 = unat (sz::u32))"
  using unat_size_minus_1 [of x sz] by (auto simp: word_unat_eq_iff)

lemma before_last: "x < sz \<Longrightarrow> (x < sz - 1) = (unat x + 1 < unat (sz::u32))"
  using unat_size_minus_1 [of x sz] by (auto simp: word_less_nat_alt)

lemma if_False_conj: "(if A then False else B) = (\<not> A \<and> B)"
  by simp

lemma border_rule: "(\<not> (P \<and> c \<noteq> (0::u32))) = (P \<longrightarrow> c = 0)"
  by simp

lemma neighbour_rule:
  "(\<not> (P \<and> v \<noteq> None \<and> f (the v) \<noteq> (c::u32))) = (\<forall>j. P \<longrightarrow> v = Some j \<longrightarrow> f j = c)"
  by (cases v) auto

text \<open>The chain of early returns of \<open>valid_move\<close> as the conjunction of its eight tests.\<close>

lemma valid_move_conj:
  "valid_move sz ts b x y t =
    ((x = 0 \<longrightarrow> W_COLOR t = 0) \<and> (y = 0 \<longrightarrow> N_COLOR t = 0) \<and>
     (x = sz - 1 \<longrightarrow> E_COLOR t = 0) \<and> (y = sz - 1 \<longrightarrow> S_COLOR t = 0) \<and>
     (\<forall>j. 0 < x \<longrightarrow> b (x - 1) y = Some j \<longrightarrow> E_COLOR (ts j) = W_COLOR t) \<and>
     (\<forall>j. x < sz - 1 \<longrightarrow> b (x + 1) y = Some j \<longrightarrow> W_COLOR (ts j) = E_COLOR t) \<and>
     (\<forall>j. 0 < y \<longrightarrow> b x (y - 1) = Some j \<longrightarrow> S_COLOR (ts j) = N_COLOR t) \<and>
     (\<forall>j. y < sz - 1 \<longrightarrow> b x (y + 1) = Some j \<longrightarrow> N_COLOR (ts j) = S_COLOR t))"
  unfolding valid_move_def if_False_conj border_rule
    neighbour_rule [of _ _ "\<lambda>j. E_COLOR (ts j)"] neighbour_rule [of _ _ "\<lambda>j. W_COLOR (ts j)"]
    neighbour_rule [of _ _ "\<lambda>j. S_COLOR (ts j)"] neighbour_rule [of _ _ "\<lambda>j. N_COLOR (ts j)"]
  by simp

lemma ball_sides: "(\<forall>s\<in>{0, 1, 2, 3::int}. P s) = (P 0 \<and> P 1 \<and> P 2 \<and> P 3)"
  by simp

lemma boundary_sides:
  "on_boundary sz x y 0 = (unat y = 0)" "on_boundary sz x y 1 = (unat x + 1 = unat sz)"
  "on_boundary sz x y 2 = (unat y + 1 = unat sz)" "on_boundary sz x y 3 = (unat x = 0)"
  by (simp_all add: on_boundary_def)

lemma neighbour_sides:
  "neighbour_cell sz x y 0 = (if 0 < unat y then Some (x, y - 1) else None)"
  "neighbour_cell sz x y 1 = (if unat x + 1 < unat sz then Some (x + 1, y) else None)"
  "neighbour_cell sz x y 2 = (if unat y + 1 < unat sz then Some (x, y + 1) else None)"
  "neighbour_cell sz x y 3 = (if 0 < unat x then Some (x - 1, y) else None)"
  by (simp_all add: neighbour_cell_def)

lemma facing_sides: "facing 0 = 2" "facing 1 = 3" "facing 2 = 0" "facing 3 = 1"
  by (simp_all add: facing_def)

lemma can_place_spec_conj:
  "can_place_spec sz ts b x y t =
    ((unat y = 0 \<longrightarrow> N_COLOR t = 0) \<and> (unat x + 1 = unat sz \<longrightarrow> E_COLOR t = 0) \<and>
     (unat y + 1 = unat sz \<longrightarrow> S_COLOR t = 0) \<and> (unat x = 0 \<longrightarrow> W_COLOR t = 0) \<and>
     (\<forall>j. 0 < unat y \<longrightarrow> b x (y - 1) = Some j \<longrightarrow> S_COLOR (ts j) = N_COLOR t) \<and>
     (\<forall>j. unat x + 1 < unat sz \<longrightarrow> b (x + 1) y = Some j \<longrightarrow> W_COLOR (ts j) = E_COLOR t) \<and>
     (\<forall>j. unat y + 1 < unat sz \<longrightarrow> b x (y + 1) = Some j \<longrightarrow> N_COLOR (ts j) = S_COLOR t) \<and>
     (\<forall>j. 0 < unat x \<longrightarrow> b (x - 1) y = Some j \<longrightarrow> E_COLOR (ts j) = W_COLOR t))"
proof -
  have n: "(\<forall>p j. neighbour_cell sz x y 0 = Some p \<longrightarrow> b (fst p) (snd p) = Some j \<longrightarrow>
              X_COLOR (ts j) 2 = X_COLOR t 0) =
           (\<forall>j. 0 < unat y \<longrightarrow> b x (y - 1) = Some j \<longrightarrow> X_COLOR (ts j) 2 = X_COLOR t 0)"
    by (simp add: neighbour_sides)
  have e: "(\<forall>p j. neighbour_cell sz x y 1 = Some p \<longrightarrow> b (fst p) (snd p) = Some j \<longrightarrow>
              X_COLOR (ts j) 3 = X_COLOR t 1) =
           (\<forall>j. unat x + 1 < unat sz \<longrightarrow> b (x + 1) y = Some j \<longrightarrow> X_COLOR (ts j) 3 = X_COLOR t 1)"
    by (simp add: neighbour_sides)
  have s: "(\<forall>p j. neighbour_cell sz x y 2 = Some p \<longrightarrow> b (fst p) (snd p) = Some j \<longrightarrow>
              X_COLOR (ts j) 0 = X_COLOR t 2) =
           (\<forall>j. unat y + 1 < unat sz \<longrightarrow> b x (y + 1) = Some j \<longrightarrow> X_COLOR (ts j) 0 = X_COLOR t 2)"
    by (simp add: neighbour_sides)
  have w: "(\<forall>p j. neighbour_cell sz x y 3 = Some p \<longrightarrow> b (fst p) (snd p) = Some j \<longrightarrow>
              X_COLOR (ts j) 1 = X_COLOR t 3) =
           (\<forall>j. 0 < unat x \<longrightarrow> b (x - 1) y = Some j \<longrightarrow> X_COLOR (ts j) 1 = X_COLOR t 3)"
    by (simp add: neighbour_sides)
  show ?thesis
    unfolding can_place_spec_def ball_sides boundary_sides facing_sides
      N_COLOR_def E_COLOR_def S_COLOR_def W_COLOR_def n e s w
    by blast
qed

text \<open>
  C1.  For every board, every tile and every position inside the board, \<open>valid_move\<close>
  returns true exactly when every boundary side of the tile shows colour 0 under its
  current rotation and every occupied orthogonal neighbour shows on its facing side the
  colour the tile shows towards it.  The function computes a truth value from the
  board, the tile array and the tile, and writes to none of them.
\<close>

theorem valid_move_iff_can_place:
  "x < sz \<Longrightarrow> y < sz \<Longrightarrow> valid_move sz ts b x y t = can_place_spec sz ts b x y t"
  unfolding valid_move_conj can_place_spec_conj
  by (simp only: last_index before_last unat_gt_0 unat_eq_zero word_greater_zero_iff) blast

text \<open>
  A 2 x 2 board with tile 0 at (0, 0) showing 1 to the East; the candidate at (1, 0)
  shows 0 North and East and 1 West.
\<close>

definition example_tile_A :: tile where
  "example_tile_A = \<lparr>colors = [0, 1, 2, 0], rotation = 0, tid = 0, used = True\<rparr>"

definition example_tile_B :: tile where
  "example_tile_B = \<lparr>colors = [0, 0, 3, 1], rotation = 0, tid = 1, used = True\<rparr>"

definition example_board_A :: board_t where
  "example_board_A = (\<lambda>x y. if x = 0 \<and> y = 0 then Some 0 else None)"

theorem valid_move_iff_can_place_witness:
  "(1::u32) < 2 \<and> (0::u32) < 2 \<and>
   valid_move 2 (\<lambda>i. example_tile_A) example_board_A 1 0 example_tile_B \<and>
   can_place_spec 2 (\<lambda>i. example_tile_A) example_board_A 1 0 example_tile_B"
  using valid_move_iff_can_place [of 1 2 0 "\<lambda>i. example_tile_A" example_board_A example_tile_B]
  by (simp add: valid_move_def example_tile_A_def example_tile_B_def example_board_A_def
      N_COLOR_def E_COLOR_def S_COLOR_def W_COLOR_def X_COLOR_def)

section \<open>The corner classifier against its specification\<close>

text \<open>
  The four corner conditions at a rotation, by corner type 0 (North and West), 1 (North
  and East), 2 (South and West), 3 (South and East), and the 16 combinations in the
  order rotation first, then type.
\<close>

definition corner_test :: "tile \<Rightarrow> nat \<Rightarrow> int \<Rightarrow> bool" where
  "corner_test t rot ty =
    (let t1 = t\<lparr>rotation := of_nat rot\<rparr> in
     if ty = 0 then N_COLOR t1 = 0 \<and> W_COLOR t1 = 0
     else if ty = 1 then N_COLOR t1 = 0 \<and> E_COLOR t1 = 0
     else if ty = 2 then S_COLOR t1 = 0 \<and> W_COLOR t1 = 0
     else S_COLOR t1 = 0 \<and> E_COLOR t1 = 0)"

definition corner_combinations :: "(nat \<times> int) list" where
  "corner_combinations =
    concat (map (\<lambda>rot. map (\<lambda>ty. (rot, ty)) [0, 1, 2, 3]) [0, 1, 2, 3])"

definition classify_corner_spec :: "tile \<Rightarrow> (u8 \<times> int) option" where
  "classify_corner_spec t =
    map_option (\<lambda>(rot, ty). (of_nat rot, ty))
      (find (\<lambda>(rot, ty). corner_test t rot ty) corner_combinations)"

text \<open>Sides \<open>s\<close> and \<open>s + 1\<close> (cyclically) are orthogonally adjacent.\<close>

definition adjacent_border :: "tile \<Rightarrow> nat \<Rightarrow> int \<Rightarrow> bool" where
  "adjacent_border t rot s =
    (X_COLOR (t\<lparr>rotation := of_nat rot\<rparr>) s = 0 \<and>
     X_COLOR (t\<lparr>rotation := of_nat rot\<rparr>) ((s + 1) mod 4) = 0)"

lemma ex_rot_lt4: "(\<exists>rot<4::nat. P rot) = (P 0 \<or> P 1 \<or> P 2 \<or> P 3)"
proof -
  have "\<And>rot::nat. rot < 4 \<longleftrightarrow> rot = 0 \<or> rot = 1 \<or> rot = 2 \<or> rot = 3" by arith
  then show ?thesis by auto
qed

lemma ex_side: "(\<exists>s::int. 0 \<le> s \<and> s < 4 \<and> P s) = (P 0 \<or> P 1 \<or> P 2 \<or> P 3)"
proof
  assume "\<exists>s::int. 0 \<le> s \<and> s < 4 \<and> P s"
  then obtain s :: int where s: "0 \<le> s" "s < 4" "P s" by blast
  from s(1,2) have "s = 0 \<or> s = 1 \<or> s = 2 \<or> s = 3" by arith
  with s(3) show "P 0 \<or> P 1 \<or> P 2 \<or> P 3" by blast
next
  assume "P 0 \<or> P 1 \<or> P 2 \<or> P 3"
  moreover have "P 0 \<Longrightarrow> \<exists>s::int. 0 \<le> s \<and> s < 4 \<and> P s" by (rule exI [of _ 0]) simp
  moreover have "P 1 \<Longrightarrow> \<exists>s::int. 0 \<le> s \<and> s < 4 \<and> P s" by (rule exI [of _ 1]) simp
  moreover have "P 2 \<Longrightarrow> \<exists>s::int. 0 \<le> s \<and> s < 4 \<and> P s" by (rule exI [of _ 2]) simp
  moreover have "P 3 \<Longrightarrow> \<exists>s::int. 0 \<le> s \<and> s < 4 \<and> P s" by (rule exI [of _ 3]) simp
  ultimately show "\<exists>s::int. 0 \<le> s \<and> s < 4 \<and> P s" by blast
qed

text \<open>
  C7.  \<open>eh_peca_de_quina\<close> returns the first of the 16 (rotation, corner type)
  combinations, rotations 0..3 ascending and at each rotation the types in the order NW,
  NE, SW, SE, whose condition holds, and no match when none holds; it returns a match
  exactly when some rotation shows the border colour on two orthogonally adjacent sides.
\<close>

theorem eh_peca_de_quina_first_match:
  "snd (eh_peca_de_quina t) = classify_corner_spec t \<and>
   (snd (eh_peca_de_quina t) \<noteq> None \<longleftrightarrow>
      (\<exists>rot<4. \<exists>s. 0 \<le> s \<and> s < 4 \<and> adjacent_border t rot s))"
  apply (simp only: ex_rot_lt4 ex_side)
  apply (simp add: eh_peca_de_quina_def eh_peca_loop.simps classify_corner_spec_def
      corner_combinations_def corner_test_def Let_def adjacent_border_def
      N_COLOR_def E_COLOR_def S_COLOR_def W_COLOR_def)
  apply blast
  done


section \<open>Colour 0 between neighbours\<close>

text \<open>
  \<open>valid_move\<close> compares the two colours of a shared edge for equality and has no test
  that rejects 0 there.  Tile a lies at (0, 0) and shows 0 to the East; tile b is
  offered at (1, 0) and shows 0 to the West, North and East.
\<close>

definition example_tile_zero_a :: tile where
  "example_tile_zero_a = \<lparr>colors = [0, 0, 5, 0], rotation = 0, tid = 0, used = True\<rparr>"

definition example_tile_zero_b :: tile where
  "example_tile_zero_b = \<lparr>colors = [0, 0, 6, 0], rotation = 0, tid = 1, used = True\<rparr>"

text \<open>
  C8 as stated fails: the placement is accepted although the candidate's West side faces
  the occupied cell (0, 0) and both touching sides show colour 0.
\<close>

theorem valid_move_accepts_zero_edge:
  "valid_move 2 (\<lambda>i. example_tile_zero_a) example_board_A 1 0 example_tile_zero_b \<and>
   neighbour_cell 2 1 0 3 = Some (0, 0) \<and> example_board_A 0 0 = Some 0 \<and>
   X_COLOR example_tile_zero_b 3 = 0 \<and> X_COLOR example_tile_zero_a (facing 3) = 0"
  by (simp add: valid_move_def example_tile_zero_a_def example_tile_zero_b_def
      example_board_A_def N_COLOR_def E_COLOR_def S_COLOR_def W_COLOR_def X_COLOR_def
      neighbour_cell_def facing_def)

definition zero_matched :: "u32 \<Rightarrow> tiles_t \<Rightarrow> board_t \<Rightarrow> u32 \<Rightarrow> u32 \<Rightarrow> tile \<Rightarrow> bool" where
  "zero_matched sz ts b x y t =
    ((\<forall>s\<in>{0, 1, 2, 3}. on_boundary sz x y s \<longrightarrow> X_COLOR t s = 0) \<and>
     (\<forall>s\<in>{0, 1, 2, 3}. \<forall>p j. neighbour_cell sz x y s = Some p \<longrightarrow>
         b (fst p) (snd p) = Some j \<longrightarrow>
         (X_COLOR t s = 0) = (X_COLOR (ts j) (facing s) = 0)))"

text \<open>
  C8, amended.  In every placement \<open>valid_move\<close> accepts, every side on the board's
  boundary shows colour 0, and a side facing an occupied neighbour shows colour 0 exactly
  when the neighbour's facing side shows 0 too: 0 is matched against 0 like any other
  colour, and never against a different colour.
\<close>

theorem valid_move_zero_matched:
  "x < sz \<Longrightarrow> y < sz \<Longrightarrow> valid_move sz ts b x y t \<Longrightarrow> zero_matched sz ts b x y t"
proof -
  assume a: "x < sz" "y < sz" "valid_move sz ts b x y t"
  have "can_place_spec sz ts b x y t"
    using a unfolding valid_move_conj can_place_spec_conj
    by (simp only: last_index before_last unat_gt_0 unat_eq_zero word_greater_zero_iff) blast
  then show ?thesis
    unfolding can_place_spec_def zero_matched_def by metis
qed

theorem valid_move_zero_matched_witness:
  "(1::u32) < 2 \<and> (0::u32) < 2 \<and>
   valid_move 2 (\<lambda>i. example_tile_zero_a) example_board_A 1 0 example_tile_zero_b \<and>
   zero_matched 2 (\<lambda>i. example_tile_zero_a) example_board_A 1 0 example_tile_zero_b"
  using valid_move_zero_matched
    [of 1 2 0 "\<lambda>i. example_tile_zero_a" example_board_A example_tile_zero_b]
  by (simp add: valid_move_def example_tile_zero_a_def example_tile_zero_b_def
      example_board_A_def N_COLOR_def E_COLOR_def S_COLOR_def W_COLOR_def X_COLOR_def)

section \<open>The collective result\<close>

text \<open>
  After the search every active process takes part in \<open>MPI_Allreduce\<close> over the
  communicator of the active processes: each contributes one int and each receives the
  maximum (\<open>MPI_MAX\<close>) or minimum (\<open>MPI_MIN\<close>) of all contributions.  \<open>locals\<close> lists
  \<open>local_solution\<close> of the active processes by rank.
\<close>

definition allreduce_max :: "int list \<Rightarrow> int" where
  "allreduce_max vs = fold max (tl vs) (hd vs)"

definition allreduce_min :: "int list \<Rightarrow> int" where
  "allreduce_min vs = fold min (tl vs) (hd vs)"

definition global_result :: "bool list \<Rightarrow> int" where
  "global_result locals = allreduce_max (map (\<lambda>l. if l then 1 else 0) locals)"

definition has_solution :: "nat \<Rightarrow> nat \<Rightarrow> bool \<Rightarrow> int" where
  "has_solution effective_processes r local_solution =
    (if local_solution then int r else int effective_processes)"

text \<open>\<open>winner_rank\<close> keeps its initial value -1 when \<open>global_result\<close> is 0.\<close>

definition winner_rank :: "nat \<Rightarrow> bool list \<Rightarrow> int" where
  "winner_rank effective_processes locals =
    (if global_result locals \<noteq> 0
     then allreduce_min (map (\<lambda>r. has_solution effective_processes r (locals ! r))
            [0..<effective_processes])
     else - 1)"

text \<open>Process \<open>r\<close> reaches \<open>print_solution\<close>.\<close>

definition prints_solution :: "nat \<Rightarrow> bool list \<Rightarrow> nat \<Rightarrow> bool" where
  "prints_solution effective_processes locals r =
    (global_result locals \<noteq> 0 \<and> locals ! r \<and>
     int r = winner_rank effective_processes locals)"

lemma allreduce_min_Min: "vs \<noteq> [] \<Longrightarrow> allreduce_min vs = Min (set vs)"
  by (cases vs) (simp_all add: allreduce_min_def Min.set_eq_fold [symmetric])

lemma allreduce_max_Max: "vs \<noteq> [] \<Longrightarrow> allreduce_max vs = Max (set vs)"
  by (cases vs) (simp_all add: allreduce_max_def Max.set_eq_fold [symmetric])

lemma global_result_nonzero:
  assumes "r0 < length locals" "locals ! r0"
  shows "global_result locals \<noteq> 0"
proof -
  let ?vs = "map (\<lambda>l. if l then 1 else (0::int)) locals"
  have ne: "?vs \<noteq> []" using assms by auto
  have "(1::int) \<in> set ?vs" using assms by (force simp: in_set_conv_nth)
  then have "1 \<le> Max (set ?vs)" by (simp add: Max_ge)
  then show ?thesis by (simp add: global_result_def allreduce_max_Max [OF ne])
qed

lemma winner_is_least:
  assumes len: "length locals = eff" and r0: "r0 < eff" "locals ! r0"
  shows "winner_rank eff locals = int (LEAST r. locals ! r)"
proof -
  let ?m = "LEAST r. locals ! r"
  let ?f = "\<lambda>r. has_solution eff r (locals ! r)"
  have m: "locals ! ?m" using r0(2) by (rule LeastI)
  have mle: "?m \<le> r0" using r0(2) by (rule Least_le)
  then have mlt: "?m < eff" using r0(1) by simp
  have ne: "map ?f [0..<eff] \<noteq> []" using r0(1) by auto
  have "Min (set (map ?f [0..<eff])) = int ?m"
  proof (rule Min_eqI)
    show "finite (set (map ?f [0..<eff]))" by simp
    show "int ?m \<in> set (map ?f [0..<eff])"
      using m mlt by (auto simp: has_solution_def image_iff intro!: bexI [of _ ?m])
    fix v assume "v \<in> set (map ?f [0..<eff])"
    then obtain r where r: "r < eff" "v = ?f r" by auto
    show "int ?m \<le> v"
    proof (cases "locals ! r")
      case True
      then have "?m \<le> r" by (rule Least_le)
      with True r show ?thesis by (simp add: has_solution_def)
    next
      case False
      with r mlt show ?thesis by (simp add: has_solution_def)
    qed
  qed
  moreover have "global_result locals \<noteq> 0"
    using global_result_nonzero [of r0 locals] len r0 by simp
  ultimately show ?thesis
    by (simp add: winner_rank_def allreduce_min_Min [OF ne])
qed

text \<open>
  C4.  When some active process has \<open>local_solution\<close> set, \<open>winner_rank\<close> is the minimum
  over the active processes of the own rank where \<open>local_solution\<close> is set and of
  \<open>effective_processes\<close>, which exceeds every active rank, elsewhere; it is the lowest
  rank with \<open>local_solution\<close> set, and that process alone prints the solution.  The
  reductions see only the flags, so the order in which searches finished plays no part.
\<close>

theorem winner_rank_lowest_finisher:
  assumes len: "length locals = eff" and r0: "r0 < eff" "locals ! r0"
  shows "winner_rank eff locals = Min ((\<lambda>r. has_solution eff r (locals ! r)) ` {0..<eff}) \<and>
         winner_rank eff locals = int (LEAST r. locals ! r) \<and>
         (\<forall>r<eff. prints_solution eff locals r = (r = (LEAST r. locals ! r)))"
proof -
  have ne: "map (\<lambda>r. has_solution eff r (locals ! r)) [0..<eff] \<noteq> []" using r0(1) by auto
  have g: "global_result locals \<noteq> 0"
    using global_result_nonzero [of r0 locals] len r0 by simp
  have 1: "winner_rank eff locals = Min ((\<lambda>r. has_solution eff r (locals ! r)) ` {0..<eff})"
    using g by (simp add: winner_rank_def allreduce_min_Min [OF ne])
  have 2: "winner_rank eff locals = int (LEAST r. locals ! r)"
    using assms by (rule winner_is_least)
  have m: "locals ! (LEAST r. locals ! r)" using r0(2) by (rule LeastI)
  have 3: "\<forall>r<eff. prints_solution eff locals r = (r = (LEAST r. locals ! r))"
    using g m by (auto simp: prints_solution_def 2)
  from 1 2 3 show ?thesis by blast
qed

text \<open>Ranks 1 and 2 of three both finish: rank 1 is the winner and the only printer.\<close>

theorem winner_rank_lowest_finisher_witness:
  "length [False, True, True] = 3 \<and> (1::nat) < 3 \<and> [False, True, True] ! 1 \<and>
   winner_rank 3 [False, True, True] = 1 \<and>
   prints_solution 3 [False, True, True] 1 \<and>
   \<not> prints_solution 3 [False, True, True] 2 \<and>
   \<not> prints_solution 3 [False, True, True] 0"
  using winner_rank_lowest_finisher [of "[False, True, True]" 3 1]
  by (simp add: winner_rank_def prints_solution_def global_result_def allreduce_max_def
      allreduce_min_def has_solution_def upt_rec)


section \<open>Properties of the search\<close>

subsection \<open>The branches of play, of its tile loop and of its rotation loop\<close>

lemma used_set_rotation [simp]: "used (tiles (set_rotation i r st) j) = used (tiles st j)"
  by (simp add: set_rotation_def)

lemma used_set_cell [simp]: "used (tiles (set_cell x y v st) j) = used (tiles st j)"
  by (simp add: set_cell_def)

lemma used_set_used [simp]:
  "used (tiles (set_used i u st) j) = (if j = i then u else used (tiles st j))"
  by (simp add: set_used_def)

lemma used_poll [simp]: "used (tiles (fst (poll c st)) j) = used (tiles st j)"
  by (simp add: poll_def Let_def split: option.split)

lemma play_cases [consumes 1, case_names stopped polled found search]:
  assumes "play c st x y = (st', r)"
  obtains "global_stop st" "st' = st" "\<not> r"
  | "\<not> global_stop st" "snd (poll c st)" "st' = fst (poll c st)" "\<not> r"
  | "\<not> global_stop st" "\<not> snd (poll c st)" "global_solution_found (fst (poll c st))"
      "st' = fst (poll c st)" "\<not> r"
  | "\<not> global_stop st" "\<not> snd (poll c st)" "\<not> global_solution_found (fst (poll c st))"
      "play_tiles c (fst (poll c st)) x y 0 = (st', r)"
  using assms by (subst (asm) play.simps) (auto split: if_splits)

lemma play_tiles_cases [consumes 1, case_names exhausted skip hit miss]:
  assumes "play_tiles c st x y i = (st', r)"
  obtains "\<not> i < unat (tile_count c)" "st' = st" "\<not> r"
  | "i < unat (tile_count c)" "used (tiles st i)" "play_tiles c st x y (i + 1) = (st', r)"
  | "i < unat (tile_count c)" "\<not> used (tiles st i)"
      "play_rots c (set_used i True st) x y i 0 = (st', True)" "r"
  | st2 where "i < unat (tile_count c)" "\<not> used (tiles st i)"
      "play_rots c (set_used i True st) x y i 0 = (st2, False)"
      "play_tiles c (set_used i False st2) x y (i + 1) = (st', r)"
  using assms by (subst (asm) play_tiles.simps) (auto split: if_splits prod.splits bool.splits)

lemma play_rots_cases [consumes 1, case_names exhausted complete hit miss invalid]:
  assumes "play_rots c st x y i rot = (st', r)"
  obtains "\<not> rot < 4" "st' = st" "\<not> r"
  | "rot < 4"
      "valid_move (bsize c) (tiles (set_rotation i (of_nat rot) st))
         (board (set_rotation i (of_nat rot) st)) x y (tiles (set_rotation i (of_nat rot) st) i)"
      "snd (next_cell (bsize c) x y) = bsize c"
      "st' = send_stop c (set_cell x y (Some i) (set_rotation i (of_nat rot) st))" "r"
  | st3 where "rot < 4"
      "valid_move (bsize c) (tiles (set_rotation i (of_nat rot) st))
         (board (set_rotation i (of_nat rot) st)) x y (tiles (set_rotation i (of_nat rot) st) i)"
      "snd (next_cell (bsize c) x y) \<noteq> bsize c"
      "play c (set_cell x y (Some i) (set_rotation i (of_nat rot) st))
         (fst (next_cell (bsize c) x y)) (snd (next_cell (bsize c) x y)) = (st3, True)"
      "st' = send_stop c st3" "r"
  | st3 where "rot < 4"
      "valid_move (bsize c) (tiles (set_rotation i (of_nat rot) st))
         (board (set_rotation i (of_nat rot) st)) x y (tiles (set_rotation i (of_nat rot) st) i)"
      "snd (next_cell (bsize c) x y) \<noteq> bsize c"
      "play c (set_cell x y (Some i) (set_rotation i (of_nat rot) st))
         (fst (next_cell (bsize c) x y)) (snd (next_cell (bsize c) x y)) = (st3, False)"
      "play_rots c (set_cell x y None st3) x y i (rot + 1) = (st', r)"
  | "rot < 4"
      "\<not> valid_move (bsize c) (tiles (set_rotation i (of_nat rot) st))
         (board (set_rotation i (of_nat rot) st)) x y (tiles (set_rotation i (of_nat rot) st) i)"
      "play_rots c (set_rotation i (of_nat rot) st) x y i (rot + 1) = (st', r)"
  using assms
  by (subst (asm) play_rots.simps) (auto simp: Let_def split: if_splits prod.splits bool.splits)

text \<open>
  A call that returns 0 leaves every \<open>used\<close> flag as it found it: a tile is marked
  before its rotations are tried and unmarked after them.
\<close>

lemma used_restored:
  shows "play c st x y = (st', False) \<Longrightarrow> used (tiles st' j) = used (tiles st j)"
    and "play_tiles c st x y i = (st', False) \<Longrightarrow> used (tiles st' j) = used (tiles st j)"
    and "play_rots c st x y i rot = (st', False) \<Longrightarrow> used (tiles st' j) = used (tiles st j)"
proof (induct c st x y and c st x y i and c st x y i rot arbitrary: st' and st' and st'
    rule: play_play_tiles_play_rots.induct)
  case (1 c st x y)
  from "1.prems" show ?case
  proof (cases rule: play_cases)
    case search
    then show ?thesis using "1.hyps" by simp
  qed simp_all
next
  case (2 c st x y i)
  from "2.prems" show ?case
  proof (cases rule: play_tiles_cases)
    case skip
    then show ?thesis using "2.hyps"(1) by simp
  next
    case (miss st2)
    have "used (tiles st2 j) = used (tiles (set_used i True st) j)"
      using "2.hyps"(2) miss by simp
    moreover have "used (tiles st' j) = used (tiles (set_used i False st2) j)"
      using "2.hyps"(3) [OF miss(1,2) miss(3) [symmetric] refl miss(4)] .
    ultimately show ?thesis using miss(2) by simp
  qed simp_all
next
  case (3 c st x y i rot)
  from "3.prems" show ?case
  proof (cases rule: play_rots_cases)
    case (miss st3)
    have "used (tiles st3 j) = used (tiles (set_cell x y (Some i) (set_rotation i (of_nat rot) st)) j)"
      using "3.hyps"(1) [OF miss(1) refl miss(2) refl refl miss(3) miss(4)] .
    moreover have "used (tiles st' j) = used (tiles (set_cell x y None st3) j)"
      using "3.hyps"(2) [OF miss(1) refl miss(2) refl refl miss(3) miss(4) [symmetric] refl miss(5)] .
    ultimately show ?thesis by simp
  next
    case invalid
    then show ?thesis using "3.hyps"(3) [OF invalid(1) refl invalid(2) invalid(3)] by simp
  qed simp_all
qed

subsection \<open>The stop notifications of a successful search\<close>

text \<open>
  The number of positions \<open>play\<close> fills from (x, y) to the end of the board, following
  the computation of the next position: the depth of the recursion on a path that
  completes the board.
\<close>

function cells_left :: "u32 \<Rightarrow> u32 \<Rightarrow> u32 \<Rightarrow> nat" where
  "cells_left sz x y =
    (if snd (next_cell sz x y) = sz then 1
     else 1 + cells_left sz (fst (next_cell sz x y)) (snd (next_cell sz x y)))"
  by pat_completeness auto
termination
  apply (relation "measures [\<lambda>(sz, x, y). unat (sz - 1) - unat y,
                             \<lambda>(sz, x, y). unat (sz - 1) - unat x]")
    apply (auto simp: next_cell_def next_x_decreases split: if_splits)
  done

declare cells_left.simps [simp del]

text \<open>\<open>n\<close> rounds of the loop of sends.\<close>

definition notifications :: "cfg \<Rightarrow> nat \<Rightarrow> (nat \<times> int) list" where
  "notifications c n = concat (replicate n (notify_all c))"

lemma notifications_Suc: "notifications c n @ notify_all c = notifications c (Suc n)"
  unfolding notifications_def
  by (metis append_Nil2 concat.simps(1) concat.simps(2) concat_append replicate_Suc replicate_append_same)

lemma outbox_simps [simp]:
  "outbox (set_rotation i r st) = outbox st" "outbox (set_cell x y v st) = outbox st"
  "outbox (set_used i u st) = outbox st" "outbox (fst (poll c st)) = outbox st"
  "outbox (send_stop c st) = outbox st @ notify_all c"
  by (simp_all add: set_rotation_def set_cell_def set_used_def poll_def Let_def send_stop_def
      split: option.split)

text \<open>
  What a call hands to \<open>MPI_Send\<close>: nothing when it returns 0; when it returns 1, one round
  of sends at each level of the recursion, because the block after
  \<open>ny == game->size || play(game, nx, ny)\<close> runs at every level that sees success.
\<close>

lemma outbox_play:
  shows "play c st x y = (st', r) \<Longrightarrow>
           outbox st' = outbox st @ (if r then notifications c (cells_left (bsize c) x y) else [])"
    and "play_tiles c st x y i = (st', r) \<Longrightarrow>
           outbox st' = outbox st @ (if r then notifications c (cells_left (bsize c) x y) else [])"
    and "play_rots c st x y i rot = (st', r) \<Longrightarrow>
           outbox st' = outbox st @ (if r then notifications c (cells_left (bsize c) x y) else [])"
proof (induct c st x y and c st x y i and c st x y i rot arbitrary: st' r and st' r and st' r
    rule: play_play_tiles_play_rots.induct)
  case (1 c st x y)
  from "1.prems" show ?case
  proof (cases rule: play_cases)
    case search
    then show ?thesis using "1.hyps" by simp
  qed simp_all
next
  case (2 c st x y i)
  from "2.prems" show ?case
  proof (cases rule: play_tiles_cases)
    case skip
    then show ?thesis using "2.hyps"(1) by simp
  next
    case hit
    then show ?thesis using "2.hyps"(2) by simp
  next
    case (miss st2)
    have "outbox st2 = outbox (set_used i True st)"
      using "2.hyps"(2) [OF miss(1,2,3)] by simp
    moreover have "outbox st' = outbox (set_used i False st2) @
        (if r then notifications c (cells_left (bsize c) x y) else [])"
      using "2.hyps"(3) [OF miss(1,2) miss(3) [symmetric] refl miss(4)] .
    ultimately show ?thesis by simp
  qed simp_all
next
  case (3 c st x y i rot)
  from "3.prems" show ?case
  proof (cases rule: play_rots_cases)
    case complete
    then show ?thesis
      by (simp add: cells_left.simps [of "bsize c" x y] notifications_def)
  next
    case (hit st3)
    have "outbox st3 = outbox (set_cell x y (Some i) (set_rotation i (of_nat rot) st)) @
        notifications c (cells_left (bsize c) (fst (next_cell (bsize c) x y)) (snd (next_cell (bsize c) x y)))"
      using "3.hyps"(1) [OF hit(1) refl hit(2) refl refl hit(3) hit(4)] by simp
    then show ?thesis using hit
      by (simp add: cells_left.simps [of "bsize c" x y] notifications_Suc)
  next
    case (miss st3)
    have "outbox st3 = outbox (set_cell x y (Some i) (set_rotation i (of_nat rot) st))"
      using "3.hyps"(1) [OF miss(1) refl miss(2) refl refl miss(3) miss(4)] by simp
    moreover have "outbox st' = outbox (set_cell x y None st3) @
        (if r then notifications c (cells_left (bsize c) x y) else [])"
      using "3.hyps"(2) [OF miss(1) refl miss(2) refl refl miss(3) miss(4) [symmetric] refl miss(5)] .
    ultimately show ?thesis by simp
  next
    case invalid
    then show ?thesis using "3.hyps"(3) [OF invalid(1) refl invalid(2) invalid(3)] by simp
  qed simp_all
qed

lemma count_filter_upt:
  "count_list (filter (\<lambda>q. q \<noteq> r) [0..<n]) p = (if p < n \<and> p \<noteq> r then 1 else 0)"
proof (induction n)
  case 0
  show ?case by simp
next
  case (Suc n)
  have "p < Suc n \<longleftrightarrow> p < n \<or> p = n" by arith
  then show ?case using Suc by (cases "p = n") simp_all
qed

lemma count_notify_all:
  "count_list (notify_all c) (p, v) =
     (if p < nprocs c \<and> p \<noteq> rank c \<and> v = int (rank c) then 1 else 0)"
proof (cases "v = int (rank c)")
  case True
  have "inj (\<lambda>p. (p, int (rank c)))" by (simp add: inj_def)
  then have "count_list (notify_all c) (p, int (rank c)) =
      count_list (filter (\<lambda>q. q \<noteq> rank c) [0..<nprocs c]) p"
    unfolding notify_all_def by (rule count_list_map_conv)
  then show ?thesis using True by (simp add: count_filter_upt)
next
  case False
  then have "(p, v) \<notin> set (notify_all c)" by (auto simp: notify_all_def)
  then show ?thesis using False by simp
qed

lemma count_notifications:
  "count_list (notifications c n) (p, v) =
     (if p < nprocs c \<and> p \<noteq> rank c \<and> v = int (rank c) then n else 0)"
  by (induction n) (simp_all add: notifications_def count_notify_all)


lemma global_stop_simps [simp]:
  "global_stop (send_stop c st)"
  by (simp add: send_stop_def)

lemma stop_on_success:
  shows "play c st x y = (st', True) \<Longrightarrow> global_stop st'"
    and "play_tiles c st x y i = (st', True) \<Longrightarrow> global_stop st'"
    and "play_rots c st x y i rot = (st', True) \<Longrightarrow> global_stop st'"
proof (induct c st x y and c st x y i and c st x y i rot arbitrary: st' and st' and st'
    rule: play_play_tiles_play_rots.induct)
  case (1 c st x y)
  from "1.prems" show ?case
  proof (cases rule: play_cases)
    case search
    then show ?thesis using "1.hyps" by simp
  qed simp_all
next
  case (2 c st x y i)
  from "2.prems" show ?case
  proof (cases rule: play_tiles_cases)
    case skip
    then show ?thesis using "2.hyps"(1) by simp
  next
    case hit
    then show ?thesis using "2.hyps"(2) by simp
  next
    case (miss st2)
    show ?thesis
      using "2.hyps"(3) [OF miss(1,2) miss(3) [symmetric] refl miss(4)] .
  qed simp_all
next
  case (3 c st x y i rot)
  from "3.prems" show ?case
  proof (cases rule: play_rots_cases)
    case (miss st3)
    show ?thesis
      using "3.hyps"(2) [OF miss(1) refl miss(2) refl refl miss(3) miss(4) [symmetric] refl miss(5)] .
  next
    case invalid
    then show ?thesis using "3.hyps"(3) [OF invalid(1) refl invalid(2) invalid(3)] by simp
  qed simp_all
qed

lemma cells_left_pos: "0 < cells_left sz x y"
  by (subst cells_left.simps) simp

subsection \<open>A process of a run\<close>

text \<open>
  The process of rank \<open>r\<close> among \<open>n\<close>, on the puzzle of size \<open>bs\<close> with the tile colours
  \<open>cols\<close>: \<open>tile_count\<close> is \<open>bsize * bsize\<close>, the corners come from
  \<open>separar_pecas_de_quina\<close> on the tiles as read, and the tile array is the one rank 0
  broadcasts after it.  \<open>no_mail\<close> is the mailbox in which no notification ever arrives.
\<close>

definition no_mail :: "nat \<Rightarrow> int option" where
  "no_mail k = None"

text \<open>
  A 2 x 2 puzzle given in solved orientation: tile 0 is a top-left corner, and tiles
  1, 2, 3 fit at (1, 0), (0, 1), (1, 1) unrotated.
\<close>

definition puzzle_1 :: "u32 list list" where
  "puzzle_1 = [[0, 1, 2, 0], [0, 0, 3, 1], [2, 4, 0, 0], [3, 0, 0, 4]]"

definition run_cfg :: "u32 \<Rightarrow> nat \<Rightarrow> nat \<Rightarrow> (nat \<Rightarrow> int option) \<Rightarrow> cfg" where
  "run_cfg bs r n mb = \<lparr>bsize = bs, tile_count = bs * bs, rank = r, nprocs = n, mailbox = mb\<rparr>"

definition run_worker :: "u32 \<Rightarrow> u32 list list \<Rightarrow> nat \<Rightarrow> nat \<Rightarrow> (nat \<Rightarrow> int option) \<Rightarrow> state \<times> bool" where
  "run_worker bs cols r n mb =
    (let s = separar_pecas_de_quina (bs * bs) (initialize bs cols)
     in worker (run_cfg bs r n mb) (fst s) (snd s))"

text \<open>
  C5 as stated fails: rank 0 of two processes completes the board of \<open>puzzle_1\<close> from
  (1, 0) and sends rank 1 three notifications, one at each of the three levels of the
  recursion that return 1.
\<close>

theorem successful_search_sends_three:
  "snd (run_worker 2 puzzle_1 0 2 no_mail) \<and>
   count_list (outbox (fst (run_worker 2 puzzle_1 0 2 no_mail))) (1, 0) = 3"
  by code_simp

text \<open>
  C5, amended.  A call of \<open>play\<close> that returns 1 has set \<open>global_stop\<close> and has sent,
  before it returns, to every other process (active or not) one notification carrying
  its own rank at each level of the recursion on the successful path: as many per peer as
  there are positions from the call's position to the end of the board, at least one, and
  nothing to itself or with another payload.
\<close>

theorem play_success_notifications:
  assumes "play c st x y = (st', True)"
  shows "global_stop st' \<and>
     outbox st' = outbox st @ notifications c (cells_left (bsize c) x y) \<and>
     0 < cells_left (bsize c) x y \<and>
     (\<forall>p v. count_list (notifications c (cells_left (bsize c) x y)) (p, v) =
        (if p < nprocs c \<and> p \<noteq> rank c \<and> v = int (rank c)
         then cells_left (bsize c) x y else 0))"
  using stop_on_success(1) [OF assms] outbox_play(1) [OF assms] cells_left_pos [of "bsize c" x y]
    count_notifications [of c "cells_left (bsize c) x y"]
  by simp

definition example_seed_1 :: state where
  "example_seed_1 =
    seed (run_cfg 2 0 2 no_mail) (initialize 2 puzzle_1)
      \<lparr>tile_id = 0, corner_rotation = 0, corner_type = 0\<rparr>"

theorem play_success_notifications_witness:
  "snd (play (run_cfg 2 0 2 no_mail) example_seed_1 1 0) \<and>
   global_stop (fst (play (run_cfg 2 0 2 no_mail) example_seed_1 1 0)) \<and>
   cells_left 2 1 0 = 3 \<and>
   outbox (fst (play (run_cfg 2 0 2 no_mail) example_seed_1 1 0)) =
     notifications (run_cfg 2 0 2 no_mail) 3 \<and>
   count_list (notifications (run_cfg 2 0 2 no_mail) 3) (1, 0) = 3"
proof -
  have e1: "snd (play (run_cfg 2 0 2 no_mail) example_seed_1 1 0)" by code_simp
  have e2: "cells_left 2 1 0 = 3" by code_simp
  have e3: "outbox example_seed_1 = []" by code_simp
  have e4: "bsize (run_cfg 2 0 2 no_mail) = 2" "nprocs (run_cfg 2 0 2 no_mail) = 2"
     "rank (run_cfg 2 0 2 no_mail) = 0" by (simp_all add: run_cfg_def)
  have h: "play (run_cfg 2 0 2 no_mail) example_seed_1 1 0 =
      (fst (play (run_cfg 2 0 2 no_mail) example_seed_1 1 0), True)"
    using e1 by (simp add: prod_eq_iff)
  from play_success_notifications [OF h] e1 e2 e3 e4 show ?thesis by simp
qed


subsection \<open>The order of trial\<close>

text \<open>
  The search step in the words of the specification.  The candidates at a cell are the
  pairs (tile, rotation) of the tiles unused on arrival, rotations 0..3, in ascending
  order of tile index (the tile's id) and then rotation.  \<open>try_candidates\<close> goes through
  a list of candidates: the first one that satisfies the placement test is placed and
  marked used, and the search advances; when the search beyond fails, the tile is
  unmarked, the cell cleared, and the next candidate is tried; when the list is
  exhausted the step fails.
\<close>

definition candidates_from :: "cfg \<Rightarrow> state \<Rightarrow> nat \<Rightarrow> (nat \<times> nat) list" where
  "candidates_from c st i =
    concat (map (\<lambda>j. map (\<lambda>rot. (j, rot)) [0..<4])
      (filter (\<lambda>j. \<not> used (tiles st j)) [i..<unat (tile_count c)]))"

definition candidates :: "cfg \<Rightarrow> state \<Rightarrow> (nat \<times> nat) list" where
  "candidates c st = candidates_from c st 0"

fun try_candidates :: "cfg \<Rightarrow> state \<Rightarrow> u32 \<Rightarrow> u32 \<Rightarrow> (nat \<times> nat) list \<Rightarrow> state \<times> bool" where
  "try_candidates c st x y [] = (st, False)"
| "try_candidates c st x y ((i, rot) # cs) =
    (let st1 = set_rotation i (of_nat rot) st in
     if valid_move (bsize c) (tiles st1) (board st1) x y (tiles st1 i) then
       (let st2 = set_used i True (set_cell x y (Some i) st1);
            n = next_cell (bsize c) x y
        in if snd n = bsize c then (send_stop c st2, True)
           else
             (case play c st2 (fst n) (snd n) of
                (st3, True) \<Rightarrow> (send_stop c st3, True)
              | (st3, False) \<Rightarrow>
                  try_candidates c (set_cell x y None (set_used i False st3)) x y cs))
     else try_candidates c st1 x y cs)"

lemma X_COLOR_cong:
  "colors t' = colors t \<Longrightarrow> rotation t' = rotation t \<Longrightarrow> X_COLOR t' s = X_COLOR t s"
  by (simp add: X_COLOR_def)

lemma valid_move_cong_tiles:
  assumes "\<And>j. colors (ts' j) = colors (ts j) \<and> rotation (ts' j) = rotation (ts j)"
    and "colors t' = colors t" "rotation t' = rotation t"
  shows "valid_move sz ts' b x y t' = valid_move sz ts b x y t"
proof -
  have a: "\<And>j s. X_COLOR (ts' j) s = X_COLOR (ts j) s" by (rule X_COLOR_cong) (simp_all add: assms(1))
  have b: "\<And>s. X_COLOR t' s = X_COLOR t s" by (rule X_COLOR_cong) (simp_all add: assms(2,3))
  show ?thesis
    by (simp only: valid_move_conj N_COLOR_def E_COLOR_def S_COLOR_def W_COLOR_def a b)
qed

lemma valid_move_set_used:
  "valid_move sz (tiles (set_used i u st)) (board (set_used i u st)) x y (tiles (set_used i u st) k)
   = valid_move sz (tiles st) (board st) x y (tiles st k)"
proof -
  have "board (set_used i u st) = board st" by (simp add: set_used_def)
  moreover have "valid_move sz (tiles (set_used i u st)) (board st) x y (tiles (set_used i u st) k)
      = valid_move sz (tiles st) (board st) x y (tiles st k)"
    by (rule valid_move_cong_tiles) (simp_all add: set_used_def)
  ultimately show ?thesis by simp
qed

lemma set_used_commute:
  "set_used i u (set_rotation i r st) = set_rotation i r (set_used i u st)"
  "set_used i u (set_cell x y v st) = set_cell x y v (set_used i u st)"
  by (simp_all add: set_used_def set_rotation_def set_cell_def fun_eq_iff)

lemma set_used_idem: "set_used i u (set_used i v st) = set_used i u st"
  by (simp add: set_used_def)

lemma tile_used_same: "used t = u \<Longrightarrow> t\<lparr>used := u\<rparr> = (t::tile)"
  by (cases t) simp

lemma set_used_same: "used (tiles st i) = u \<Longrightarrow> set_used i u st = st"
  by (simp add: set_used_def tile_used_same)


lemma play_rots_done: "\<not> rot < 4 \<Longrightarrow> play_rots c S x y i rot = (S, False)"
  by (subst play_rots.simps) simp

lemma play_rots_invalid:
  "rot < 4 \<Longrightarrow>
   \<not> valid_move (bsize c) (tiles (set_rotation i (of_nat rot) S))
       (board (set_rotation i (of_nat rot) S)) x y (tiles (set_rotation i (of_nat rot) S) i) \<Longrightarrow>
   play_rots c S x y i rot = play_rots c (set_rotation i (of_nat rot) S) x y i (rot + 1)"
  by (subst play_rots.simps) (simp add: Let_def)

lemma play_rots_valid:
  "rot < 4 \<Longrightarrow>
   valid_move (bsize c) (tiles (set_rotation i (of_nat rot) S))
       (board (set_rotation i (of_nat rot) S)) x y (tiles (set_rotation i (of_nat rot) S) i) \<Longrightarrow>
   play_rots c S x y i rot =
     (if snd (next_cell (bsize c) x y) = bsize c
      then (send_stop c (set_cell x y (Some i) (set_rotation i (of_nat rot) S)), True)
      else
        (case play c (set_cell x y (Some i) (set_rotation i (of_nat rot) S))
                (fst (next_cell (bsize c) x y)) (snd (next_cell (bsize c) x y)) of
           (st3, True) \<Rightarrow> (send_stop c st3, True)
         | (st3, False) \<Rightarrow> play_rots c (set_cell x y None st3) x y i (rot + 1)))"
  by (subst play_rots.simps) (simp add: Let_def)

text \<open>What the tile loop does with the result of the rotation loop of tile \<open>i\<close>.\<close>

definition continue_with :: "cfg \<Rightarrow> u32 \<Rightarrow> u32 \<Rightarrow> nat \<Rightarrow> (nat \<times> nat) list \<Rightarrow> state \<times> bool \<Rightarrow> state \<times> bool" where
  "continue_with c x y i rest res =
    (if snd res then res else try_candidates c (set_used i False (fst res)) x y rest)"

lemma play_rots_try:
  "used (tiles S i) \<Longrightarrow>
   try_candidates c (set_used i False S) x y (map (\<lambda>rot. (i, rot)) [rot..<4] @ rest) =
     continue_with c x y i rest (play_rots c S x y i rot)"
proof (induct "4 - rot" arbitrary: rot S)
  case 0
  then have "\<not> rot < 4" by simp
  then show ?case by (simp add: play_rots_done continue_with_def)
next
  case (Suc k)
  then have lt: "rot < 4" by simp
  let ?S1 = "set_rotation i (of_nat rot) S"
  let ?S2 = "set_cell x y (Some i) ?S1"
  let ?n = "next_cell (bsize c) x y"
  let ?cs = "map (\<lambda>rot. (i, rot)) [rot + 1..<4] @ rest"
  have u1: "used (tiles ?S1 i)" using Suc.prems by simp
  have st1: "set_rotation i (of_nat rot) (set_used i False S) = set_used i False ?S1"
    by (simp add: set_used_commute)
  have st2: "set_used i True (set_cell x y (Some i) (set_used i False ?S1)) = ?S2"
    using u1 by (simp add: set_used_commute set_used_idem set_used_same)
  have cons: "map (\<lambda>rot. (i, rot)) [rot..<4] @ rest = (i, rot) # ?cs"
    using lt by (simp add: upt_conv_Cons)
  have k: "k = 4 - (rot + 1)" using Suc.hyps(2) by simp
  show ?case
  proof (cases "valid_move (bsize c) (tiles ?S1) (board ?S1) x y (tiles ?S1 i)")
    case False
    have "try_candidates c (set_used i False S) x y ((i, rot) # ?cs) =
        try_candidates c (set_used i False ?S1) x y ?cs"
      using False by (simp add: st1 valid_move_set_used)
    also have "\<dots> = continue_with c x y i rest (play_rots c ?S1 x y i (rot + 1))"
      using Suc.hyps(1) [OF k u1] .
    finally show ?thesis using False lt by (simp add: cons play_rots_invalid)
  next
    case True
    show ?thesis
    proof (cases "snd ?n = bsize c")
      case complete: True
      then show ?thesis using True lt
        by (simp add: cons st1 st2 valid_move_set_used play_rots_valid continue_with_def Let_def)
    next
      case False
      obtain st3 r where p: "play c ?S2 (fst ?n) (snd ?n) = (st3, r)" by (cases "play c ?S2 (fst ?n) (snd ?n)")
      show ?thesis
      proof (cases r)
        case r: True
        then show ?thesis using True False lt p
          by (simp add: cons st1 st2 valid_move_set_used play_rots_valid continue_with_def Let_def)
      next
        case r: False
        have "used (tiles st3 i) = used (tiles ?S2 i)"
          using used_restored(1) p r by simp
        then have u3: "used (tiles (set_cell x y None st3) i)" using u1 by simp
        have "try_candidates c (set_used i False S) x y ((i, rot) # ?cs) =
            try_candidates c (set_used i False (set_cell x y None st3)) x y ?cs"
          using True False p r
          by (simp add: st1 st2 valid_move_set_used Let_def
              set_used_commute(2) [of i False x y None st3, symmetric])
        also have "\<dots> = continue_with c x y i rest (play_rots c (set_cell x y None st3) x y i (rot + 1))"
          using Suc.hyps(1) [OF k u3] .
        finally show ?thesis using True False lt p r by (simp add: cons play_rots_valid)
      qed
    qed
  qed
qed


lemma candidates_from_used:
  "(\<And>j. used (tiles st' j) = used (tiles st j)) \<Longrightarrow>
   candidates_from c st' i = candidates_from c st i"
  by (simp add: candidates_from_def)

lemma play_tiles_done: "\<not> i < unat (tile_count c) \<Longrightarrow> play_tiles c st x y i = (st, False)"
  by (subst play_tiles.simps) simp

lemma play_tiles_skip:
  "i < unat (tile_count c) \<Longrightarrow> used (tiles st i) \<Longrightarrow>
   play_tiles c st x y i = play_tiles c st x y (i + 1)"
  by (subst play_tiles.simps) simp

lemma play_tiles_try_tile:
  "i < unat (tile_count c) \<Longrightarrow> \<not> used (tiles st i) \<Longrightarrow>
   play_tiles c st x y i =
     (case play_rots c (set_used i True st) x y i 0 of
        (st2, True) \<Rightarrow> (st2, True)
      | (st2, False) \<Rightarrow> play_tiles c (set_used i False st2) x y (i + 1))"
  by (subst play_tiles.simps) simp

lemma play_tiles_try:
  "play_tiles c st x y i = try_candidates c st x y (candidates_from c st i)"
proof (induct "unat (tile_count c) - i" arbitrary: i st)
  case 0
  then have "\<not> i < unat (tile_count c)" by simp
  then show ?case by (simp add: play_tiles_done candidates_from_def)
next
  case (Suc k)
  then have lt: "i < unat (tile_count c)" by simp
  have k: "k = unat (tile_count c) - (i + 1)" using Suc.hyps(2) by simp
  have upt: "[i..<unat (tile_count c)] = i # [i + 1..<unat (tile_count c)]"
    using lt by (simp add: upt_conv_Cons)
  show ?case
  proof (cases "used (tiles st i)")
    case True
    then have "candidates_from c st i = candidates_from c st (i + 1)"
      by (simp add: candidates_from_def upt)
    then show ?thesis using True lt Suc.hyps(1) [OF k] by (simp add: play_tiles_skip)
  next
    case False
    let ?S = "set_used i True st"
    let ?rest = "candidates_from c st (i + 1)"
    have cf: "candidates_from c st i = map (\<lambda>rot. (i, rot)) [0..<4] @ ?rest"
      using False by (simp add: candidates_from_def upt)
    have undo: "set_used i False ?S = st"
      using False by (simp add: set_used_idem set_used_same)
    have "try_candidates c st x y (candidates_from c st i) =
        continue_with c x y i ?rest (play_rots c ?S x y i 0)"
      using play_rots_try [of ?S i c x y 0 ?rest] by (simp add: cf undo)
    moreover obtain st2 r where p: "play_rots c ?S x y i 0 = (st2, r)"
      by (cases "play_rots c ?S x y i 0")
    moreover have "\<not> r \<Longrightarrow> play_tiles c (set_used i False st2) x y (i + 1) =
        try_candidates c (set_used i False st2) x y ?rest"
    proof -
      assume "\<not> r"
      then have u: "\<And>j. used (tiles st2 j) = used (tiles ?S j)"
        using used_restored(3) p by simp
      have "candidates_from c (set_used i False st2) (i + 1) = ?rest"
        by (rule candidates_from_used) (simp add: u False)
      then show ?thesis using Suc.hyps(1) [OF k, of "set_used i False st2"] by simp
    qed
    ultimately show ?thesis using False lt
      by (cases r) (simp_all add: play_tiles_try_tile continue_with_def)
  qed
qed

definition candidate_less :: "nat \<times> nat \<Rightarrow> nat \<times> nat \<Rightarrow> bool" where
  "candidate_less a b = (fst a < fst b \<or> (fst a = fst b \<and> snd a < snd b))"

lemma set_candidates:
  "set (candidates c st) =
     {(i, rot). i < unat (tile_count c) \<and> \<not> used (tiles st i) \<and> rot < 4}"
  by (auto simp: candidates_def candidates_from_def)

lemma sorted_rotations: "sorted_wrt candidate_less (map (\<lambda>rot. (j, rot)) [0..<4])"
  by (simp add: sorted_wrt_map candidate_less_def sorted_wrt_iff_nth_less)

lemma sorted_candidate_blocks:
  "sorted_wrt (<) js \<Longrightarrow>
   sorted_wrt candidate_less (concat (map (\<lambda>j. map (\<lambda>rot. (j, rot)) [0..<4]) js))"
proof (induction js)
  case Nil
  show ?case by simp
next
  case (Cons j js)
  have "\<forall>a\<in>set (map (\<lambda>rot. (j, rot)) [0..<4]).
          \<forall>b\<in>set (concat (map (\<lambda>j. map (\<lambda>rot. (j, rot)) [0..<4]) js)). candidate_less a b"
    using Cons.prems by (auto simp: candidate_less_def)
  then show ?case using Cons sorted_rotations [of j]
    by (simp add: sorted_wrt_append)
qed

lemma sorted_candidates: "sorted_wrt candidate_less (candidates c st)"
  unfolding candidates_def candidates_from_def
  by (rule sorted_candidate_blocks) (simp add: sorted_wrt_filter)


text \<open>
  C3.  Past its stop checks, \<open>play\<close> at a cell is exactly the trial of the candidates of
  that cell in ascending (tile, rotation) order: the candidates are all rotations 0..3 of
  all tiles unused on arrival, listed in strictly ascending order, and \<open>play\<close> places the
  first that \<open>valid_move\<close> accepts, marks it used and advances, going on to the next
  candidate when the search beyond fails.  This holds for every cell and every memory.
\<close>

theorem play_tries_candidates_in_order:
  "play c st x y =
     (if global_stop st then (st, False)
      else if snd (poll c st) then (fst (poll c st), False)
      else if global_solution_found (fst (poll c st)) then (fst (poll c st), False)
      else try_candidates c (fst (poll c st)) x y (candidates c (fst (poll c st)))) \<and>
   sorted_wrt candidate_less (candidates c st) \<and>
   set (candidates c st) =
     {(i, rot). i < unat (tile_count c) \<and> \<not> used (tiles st i) \<and> rot < 4}"
proof -
  have "play c st x y =
     (if global_stop st then (st, False)
      else if snd (poll c st) then (fst (poll c st), False)
      else if global_solution_found (fst (poll c st)) then (fst (poll c st), False)
      else try_candidates c (fst (poll c st)) x y (candidates c (fst (poll c st))))"
    by (subst play.simps) (simp add: play_tiles_try candidates_def)
  then show ?thesis using sorted_candidates [of c st] set_candidates [of c st] by blast
qed

end
